theory Spec2Isabelle
  imports Main "HOL-Library.Sublist"
begin

section \<open>Strings of the Zotero publications fetcher\<close>

text \<open>
  The program is \<^verbatim>\<open>fetch_zotero_publications.py\<close>. A Python \<^verbatim>\<open>str\<close> is a sequence of
  code points; here a string is a \<^typ>\<open>string\<close> whose characters are read as the code
  points 0 to 255, and every character class below is the one Python 3 uses on these
  code points. Strings holding a code point above 255 are outside the type.
\<close>

definition code_point :: "char \<Rightarrow> nat" where
  "code_point c = of_char c"

text \<open>\<^verbatim>\<open>str.isspace\<close>, the class that \<^verbatim>\<open>str.strip()\<close> removes.\<close>

definition isspace :: "char \<Rightarrow> bool" where
  "isspace c =
     (let n = code_point c
      in (9 \<le> n \<and> n \<le> 13) \<or> (28 \<le> n \<and> n \<le> 32) \<or> n = 133 \<or> n = 160)"

definition strip :: "string \<Rightarrow> string" where
  "strip s = rev (dropWhile isspace (rev (dropWhile isspace s)))"

text \<open>\<^verbatim>\<open>str.lower()\<close>: A to Z, and the capital letters of 192 to 222 but the sign 215.\<close>

definition lower_char :: "char \<Rightarrow> char" where
  "lower_char c =
     (let n = code_point c
      in if (65 \<le> n \<and> n \<le> 90) \<or> (192 \<le> n \<and> n \<le> 222 \<and> n \<noteq> 215)
         then char_of (n + 32) else c)"

definition lower :: "string \<Rightarrow> string" where
  "lower s = map lower_char s"

text \<open>The regular expression classes \<^verbatim>\<open>\d\<close> (decimal digits) and \<^verbatim>\<open>\w\<close>
  (alphanumeric characters and the underscore) of a \<^verbatim>\<open>str\<close> pattern.\<close>

definition is_digit :: "char \<Rightarrow> bool" where
  "is_digit c = (let n = code_point c in 48 \<le> n \<and> n \<le> 57)"

definition is_alnum :: "char \<Rightarrow> bool" where
  "is_alnum c =
     (let n = code_point c
      in (48 \<le> n \<and> n \<le> 57) \<or> (65 \<le> n \<and> n \<le> 90) \<or> (97 \<le> n \<and> n \<le> 122)
         \<or> n = 170 \<or> n = 178 \<or> n = 179 \<or> n = 181 \<or> n = 185 \<or> n = 186
         \<or> (188 \<le> n \<and> n \<le> 190) \<or> (192 \<le> n \<and> n \<le> 214)
         \<or> (216 \<le> n \<and> n \<le> 246) \<or> (248 \<le> n \<and> n \<le> 255))"

definition is_word :: "char \<Rightarrow> bool" where
  "is_word c = (is_alnum c \<or> c = CHR ''_'')"

text \<open>\<^verbatim>\<open>sub in s\<close> on strings, and \<^verbatim>\<open>sep.join(parts)\<close>.\<close>

fun starts_with :: "string \<Rightarrow> string \<Rightarrow> bool" where
  "starts_with s [] = True"
| "starts_with [] (p # ps) = False"
| "starts_with (c # cs) (p # ps) = (c = p \<and> starts_with cs ps)"

fun contains :: "string \<Rightarrow> string \<Rightarrow> bool" where
  "contains [] sub = (sub = [])"
| "contains (c # cs) sub = (starts_with (c # cs) sub \<or> contains cs sub)"

fun join :: "string \<Rightarrow> string list \<Rightarrow> string" where
  "join sep [] = []"
| "join sep [p] = p"
| "join sep (p # q # ps) = p @ sep @ join sep (q # ps)"

text \<open>\<^verbatim>\<open>int(text)\<close> on a text of decimal digits, and \<^verbatim>\<open>str(n)\<close> on an integer.\<close>

definition digit_value :: "char \<Rightarrow> int" where
  "digit_value c = int (code_point c) - 48"

definition int_of_digits :: "string \<Rightarrow> int" where
  "int_of_digits s = foldl (\<lambda>a c. 10 * a + digit_value c) 0 s"

fun str_nat :: "nat \<Rightarrow> string" where
  "str_nat n =
     (if n < 10 then [char_of (48 + n)]
      else str_nat (n div 10) @ [char_of (48 + n mod 10)])"

definition str_int :: "int \<Rightarrow> string" where
  "str_int i = (if i < 0 then CHR ''-'' # str_nat (nat (- i)) else str_nat (nat i))"

section \<open>JSON values\<close>

text \<open>
  The records come from \<^verbatim>\<open>response.json()\<close>, so a value is whatever JSON decodes to:
  \<^verbatim>\<open>None\<close>, a \<^verbatim>\<open>bool\<close>, an \<^verbatim>\<open>int\<close>, a \<^verbatim>\<open>str\<close>, a \<^verbatim>\<open>list\<close> or a \<^verbatim>\<open>dict\<close> with string
  keys. A dict is the list of its items in insertion order, its keys distinct. JSON
  numbers with a fraction or an exponent (Python floats) are not part of the type.
\<close>

datatype json =
    JNull
  | JBool bool
  | JInt int
  | JStr string
  | JArr "json list"
  | JObj "(string \<times> json) list"

datatype py_exception = AttributeError | TypeError | ValueError

text \<open>Truthiness, as \<^verbatim>\<open>if not x\<close> and \<^verbatim>\<open>x or None\<close> test it.\<close>

fun truthy :: "json \<Rightarrow> bool" where
  "truthy JNull = False"
| "truthy (JBool b) = b"
| "truthy (JInt n) = (n \<noteq> 0)"
| "truthy (JStr s) = (s \<noteq> [])"
| "truthy (JArr xs) = (xs \<noteq> [])"
| "truthy (JObj d) = (d \<noteq> [])"

text \<open>\<^verbatim>\<open>x.get(key, default)\<close>: only a dict has the method.\<close>

definition dict_get :: "(string \<times> json) list \<Rightarrow> string \<Rightarrow> json \<Rightarrow> json" where
  "dict_get d k dflt = (case map_of d k of None \<Rightarrow> dflt | Some v \<Rightarrow> v)"

fun get_method :: "json \<Rightarrow> string \<Rightarrow> json \<Rightarrow> py_exception + json" where
  "get_method (JObj d) k dflt = Inr (dict_get d k dflt)"
| "get_method v k dflt = Inl AttributeError"

text \<open>\<^verbatim>\<open>x.strip()\<close>: only a string has the method.\<close>

fun strip_method :: "json \<Rightarrow> py_exception + string" where
  "strip_method (JStr s) = Inr (strip s)"
| "strip_method v = Inl AttributeError"

text \<open>\<^verbatim>\<open>for x in v\<close>: a list gives its elements, a dict its keys, a string its
  characters; the other values are not iterable.\<close>

fun py_iter :: "json \<Rightarrow> py_exception + json list" where
  "py_iter (JArr xs) = Inr xs"
| "py_iter (JObj d) = Inr (map (\<lambda>kv. JStr (fst kv)) d)"
| "py_iter (JStr s) = Inr (map (\<lambda>c. JStr [c]) s)"
| "py_iter v = Inl TypeError"

text \<open>\<^verbatim>\<open>str(v)\<close>: a string is itself, every other value is printed by \<^verbatim>\<open>repr\<close>.\<close>

definition hex_digit :: "nat \<Rightarrow> char" where
  "hex_digit n = (if n < 10 then char_of (48 + n) else char_of (87 + n))"

definition repr_char :: "char \<Rightarrow> char \<Rightarrow> string" where
  "repr_char quote c =
     (let n = code_point c
      in if c = quote \<or> n = 92 then [char_of (92::nat), c]
         else if n = 9 then [char_of (92::nat), CHR ''t'']
         else if n = 10 then [char_of (92::nat), CHR ''n'']
         else if n = 13 then [char_of (92::nat), CHR ''r'']
         else if n < 32 \<or> (127 \<le> n \<and> n \<le> 160) \<or> n = 173
         then [char_of (92::nat), CHR ''x'', hex_digit (n div 16), hex_digit (n mod 16)]
         else [c])"

definition repr_str :: "string \<Rightarrow> string" where
  "repr_str s =
     (let quote = (if char_of (39::nat) \<in> set s \<and> char_of (34::nat) \<notin> set s
                   then char_of (34::nat) else char_of (39::nat))
      in quote # concat (map (repr_char quote) s) @ [quote])"

fun py_repr :: "json \<Rightarrow> string" where
  "py_repr JNull = ''None''"
| "py_repr (JBool b) = (if b then ''True'' else ''False'')"
| "py_repr (JInt n) = str_int n"
| "py_repr (JStr s) = repr_str s"
| "py_repr (JArr xs) = ''['' @ join '', '' (map py_repr xs) @ '']''"
| "py_repr (JObj d) =
     ''{'' @ join '', '' (map (\<lambda>kv. repr_str (fst kv) @ '': '' @ py_repr (snd kv)) d) @ ''}''"

fun py_str :: "json \<Rightarrow> string" where
  "py_str (JStr s) = s"
| "py_str v = py_repr v"

section \<open>Year extraction\<close>

text \<open>
  \<^verbatim>\<open>re.search(r"\b\d{4}\b", text)\<close> tries the pattern at each position from the left.
  \<^verbatim>\<open>\b\<close> holds between two neighbours of which exactly one is a word character, the
  edges of the text counting as non-word characters.
\<close>

fun is_word_opt :: "char option \<Rightarrow> bool" where
  "is_word_opt None = False"
| "is_word_opt (Some c) = is_word c"

fun head_opt :: "string \<Rightarrow> char option" where
  "head_opt [] = None"
| "head_opt (c # cs) = Some c"

definition word_boundary :: "char option \<Rightarrow> char option \<Rightarrow> bool" where
  "word_boundary before after = (is_word_opt before \<noteq> is_word_opt after)"

text \<open>The pattern at one position: \<open>before\<close> is the character left of it, \<open>s\<close> the
  text from it on.\<close>

definition match_year_at :: "char option \<Rightarrow> string \<Rightarrow> bool" where
  "match_year_at before s =
     (word_boundary before (head_opt s) \<and> 4 \<le> length s \<and> list_all is_digit (take 4 s)
      \<and> word_boundary (head_opt (drop 3 s)) (head_opt (drop 4 s)))"

fun re_search_year :: "char option \<Rightarrow> string \<Rightarrow> string option" where
  "re_search_year before [] = None"
| "re_search_year before (c # cs) =
     (if match_year_at before (c # cs) then Some (take 4 (c # cs))
      else re_search_year (Some c) cs)"

definition extract_year :: "json \<Rightarrow> int option" where
  "extract_year date_str =
     (if \<not> truthy date_str then None
      else case re_search_year None (py_str date_str) of
             None \<Rightarrow> None
           | Some m \<Rightarrow> Some (int_of_digits m))"

text \<open>
  The property in the words of the specification: position \<open>i\<close> starts a run of four
  digits with no character of the class \<open>bnd\<close> next to it on either side, and the
  result is the number written at the first such position.
\<close>

definition four_digit_run :: "(char \<Rightarrow> bool) \<Rightarrow> string \<Rightarrow> nat \<Rightarrow> bool" where
  "four_digit_run bnd s i =
     (i + 4 \<le> length s \<and> list_all is_digit (take 4 (drop i s))
      \<and> (i = 0 \<or> \<not> bnd (s ! (i - 1)))
      \<and> (i + 4 = length s \<or> \<not> bnd (s ! (i + 4))))"

definition first_run :: "(char \<Rightarrow> bool) \<Rightarrow> string \<Rightarrow> int option" where
  "first_run bnd s =
     (case find (four_digit_run bnd s) [0..<length s] of
        None \<Rightarrow> None
      | Some i \<Rightarrow> Some (int_of_digits (take 4 (drop i s))))"

section \<open>Region assignment\<close>

text \<open>
  The keyword lists of \<^verbatim>\<open>assign_region\<close>, in the order of the source. The Hawaiian
  list of the source has one more entry, between \<^verbatim>\<open>northwestern\<close> and \<^verbatim>\<open>kauai\<close>: the
  name of the Papahanaumokuakea monument written with the letter of code point 257.
  \<^verbatim>\<open>lower\<close> maps no code point below 256 to it, so no lower-cased title of this type
  holds that keyword, and the list below leaves it out.
\<close>

definition hawaiian_keywords :: "string list" where
  "hawaiian_keywords =
     [''hawai'', ''hawaii'', ''kahekili'', ''maui'', ''ahu'', ''northwestern'',
      ''kauai'', ''oahu'', ''big island'']"

definition samoa_keywords :: "string list" where
  "samoa_keywords = [''samoa'', ''aua'', ''swains'', ''american samoa'']"

definition mariana_keywords :: "string list" where
  "mariana_keywords = [''guam'', ''mariana'', ''saipan'', ''tinian'', ''rota'']"

definition pria_keywords :: "string list" where
  "pria_keywords =
     [''wake'', ''baker'', ''howland'', ''jarvis'', ''palmyra'', ''kingman'', ''johnston'',
      ''jarvisisland'']"

text \<open>\<^verbatim>\<open>any(area in title_lower for area in areas)\<close>\<close>

definition any_in :: "string list \<Rightarrow> string \<Rightarrow> bool" where
  "any_in areas title_lower = list_ex (\<lambda>area. contains title_lower area) areas"

definition assign_region :: "string \<Rightarrow> string" where
  "assign_region t =
     (if t = [] then ''Unknown''
      else let title_lower = lower t
           in if any_in hawaiian_keywords title_lower then ''Hawaiian Archipelago''
              else if any_in samoa_keywords title_lower then ''American Samoa''
              else if any_in mariana_keywords title_lower then ''Mariana Archipelago''
              else if any_in pria_keywords title_lower then ''Pacific Remote Island Areas''
              else if contains title_lower ''pacific'' then ''Pacific-wide''
              else ''Unknown'')"

text \<open>
  The specification's reading: five keyword groups in a fixed priority order, the first
  group with a substring match in the lower-cased title wins, \<^verbatim>\<open>Unknown\<close> otherwise.
\<close>

definition keyword_groups :: "(string \<times> string list) list" where
  "keyword_groups =
     [(''Hawaiian Archipelago'', hawaiian_keywords),
      (''American Samoa'', samoa_keywords),
      (''Mariana Archipelago'', mariana_keywords),
      (''Pacific Remote Island Areas'', pria_keywords),
      (''Pacific-wide'', [''pacific''])]"

definition first_matching_group :: "string \<Rightarrow> string" where
  "first_matching_group t =
     (case find (\<lambda>g. any_in (snd g) (lower t)) keyword_groups of
        None \<Rightarrow> ''Unknown''
      | Some g \<Rightarrow> fst g)"

section \<open>Creator names\<close>

text \<open>\<^verbatim>\<open>obj.get(key, '').strip()\<close>\<close>

definition get_strip :: "json \<Rightarrow> string \<Rightarrow> py_exception + string" where
  "get_strip obj key =
     (case get_method obj key (JStr []) of
        Inl e \<Rightarrow> Inl e
      | Inr v \<Rightarrow> strip_method v)"

text \<open>The loop of \<^verbatim>\<open>clean_creators\<close> over the creators, \<open>names\<close> being the list built
  so far.\<close>

fun clean_creators_loop :: "string list \<Rightarrow> json list \<Rightarrow> py_exception + string list" where
  "clean_creators_loop names [] = Inr names"
| "clean_creators_loop names (creator # rest) =
     (case get_strip creator ''firstName'' of
        Inl e \<Rightarrow> Inl e
      | Inr first_name \<Rightarrow>
          (case get_strip creator ''lastName'' of
             Inl e \<Rightarrow> Inl e
           | Inr last_name \<Rightarrow>
               if first_name \<noteq> [] \<or> last_name \<noteq> []
               then clean_creators_loop (names @ [strip (first_name @ '' '' @ last_name)]) rest
               else clean_creators_loop names rest))"

definition clean_creators :: "json \<Rightarrow> py_exception + string" where
  "clean_creators creators =
     (if \<not> truthy creators then Inr []
      else case py_iter creators of
             Inl e \<Rightarrow> Inl e
           | Inr cs \<Rightarrow>
               (case clean_creators_loop [] cs of
                  Inl e \<Rightarrow> Inl e
                | Inr names \<Rightarrow> Inr (join ''; '' names)))"

text \<open>
  The segments of an output, as \<^verbatim>\<open>out.split("; ")\<close> cuts them, \<open>cur\<close> being the segment
  read so far; the empty output has no segment.
\<close>

fun split_semi :: "string \<Rightarrow> string \<Rightarrow> string list" where
  "split_semi cur [] = [cur]"
| "split_semi cur [a] = [cur @ [a]]"
| "split_semi cur (a # b # cs) =
     (if a = CHR '';'' \<and> b = CHR '' '' then cur # split_semi [] cs
      else split_semi (cur @ [a]) (b # cs))"

definition segment_count :: "string \<Rightarrow> nat" where
  "segment_count out = (if out = [] then 0 else length (split_semi [] out))"

text \<open>A creator entry seen through the two names the loop reads, both trimmed.\<close>

definition has_name :: "string \<times> string \<Rightarrow> bool" where
  "has_name fl = (fst fl \<noteq> [] \<or> snd fl \<noteq> [])"

definition full_name :: "string \<times> string \<Rightarrow> string" where
  "full_name fl = strip (fst fl @ '' '' @ snd fl)"

definition names_of :: "json \<Rightarrow> string \<times> string \<Rightarrow> bool" where
  "names_of creator fl =
     (get_strip creator ''firstName'' = Inr (fst fl) \<and> get_strip creator ''lastName'' = Inr (snd fl))"

section \<open>Paginated fetch\<close>

text \<open>
  One request of \<^verbatim>\<open>fetch_all_items\<close> either raises a \<^verbatim>\<open>RequestException\<close> (from
  \<^verbatim>\<open>requests.get\<close>, \<^verbatim>\<open>raise_for_status\<close> or \<^verbatim>\<open>response.json\<close>) or gives the decoded body
  and the \<^verbatim>\<open>Backoff\<close> header. The header is absent, or a text that \<^verbatim>\<open>int\<close> reads as a
  number of seconds, or a text that \<^verbatim>\<open>int\<close> rejects with a \<^verbatim>\<open>ValueError\<close>. The pauses of
  \<^verbatim>\<open>time.sleep\<close> leave no trace in the result but for the \<^verbatim>\<open>ValueError\<close> of a negative
  duration.
\<close>

datatype backoff_header = No_Backoff | Backoff_Seconds int | Backoff_Malformed

datatype response = RequestException | Response json backoff_header

record fetch_state =
  all_items :: "json list"
  start :: nat
  retry_count :: nat

text \<open>What one pass of the \<^verbatim>\<open>while True\<close> loop leads to: the function returns, an
  exception leaves it, or the loop goes on in a new state.\<close>

datatype fetch_outcome = Returned "json list" | Raised py_exception | Running fetch_state

definition max_retries :: nat where
  "max_retries = 3"

definition fetch_step :: "nat \<Rightarrow> fetch_state \<Rightarrow> response \<Rightarrow> fetch_outcome" where
  "fetch_step batch_size st r =
     (case r of
        RequestException \<Rightarrow>
          (let rc = retry_count st + 1
           in if rc \<ge> max_retries then Returned (all_items st)
              else Running (st\<lparr>retry_count := rc\<rparr>))
      | Response items hdr \<Rightarrow>
          if \<not> truthy items then Returned (all_items st)
          else (case py_iter items of
                  Inl e \<Rightarrow> Raised e
                | Inr xs \<Rightarrow>
                    (let st' = \<lparr>all_items = all_items st @ xs,
                                start = start st + batch_size,
                                retry_count = 0\<rparr>
                     in case hdr of
                          No_Backoff \<Rightarrow> Running st'
                        | Backoff_Seconds n \<Rightarrow> if n < 0 then Raised ValueError else Running st'
                        | Backoff_Malformed \<Rightarrow> Raised ValueError)))"

text \<open>The loop, driven by the responses of the endpoint in the order of the requests.
  When the responses run out the loop is still running.\<close>

fun fetch_loop :: "nat \<Rightarrow> fetch_state \<Rightarrow> response list \<Rightarrow> fetch_outcome" where
  "fetch_loop batch_size st [] = Running st"
| "fetch_loop batch_size st (r # rs) =
     (case fetch_step batch_size st r of
        Running st' \<Rightarrow> fetch_loop batch_size st' rs
      | Returned xs \<Rightarrow> Returned xs
      | Raised e \<Rightarrow> Raised e)"

definition fetch_all_items :: "nat \<Rightarrow> response list \<Rightarrow> fetch_outcome" where
  "fetch_all_items batch_size responses =
     fetch_loop batch_size \<lparr>all_items = [], start = 0, retry_count = 0\<rparr> responses"

section \<open>Record processing\<close>

record publication =
  title :: string
  creators :: string
  year :: "int option"
  doi :: "string option"
  issn :: "string option"
  url :: "string option"
  region :: string
  item_type :: json
  publication_title :: "string option"

text \<open>\<^verbatim>\<open>text or None\<close> on a string.\<close>

definition or_none :: "string \<Rightarrow> string option" where
  "or_none s = (if s = [] then None else Some s)"

text \<open>The dict literal of the loop body; its values are computed in the order written,
  and the first exception leaves it.\<close>

definition build_publication :: "json \<Rightarrow> string \<Rightarrow> py_exception + publication" where
  "build_publication data t =
     (case get_method data ''creators'' (JArr []) of
        Inl e \<Rightarrow> Inl e
      | Inr cr \<Rightarrow>
     (case clean_creators cr of
        Inl e \<Rightarrow> Inl e
      | Inr names \<Rightarrow>
     (case get_method data ''date'' (JStr []) of
        Inl e \<Rightarrow> Inl e
      | Inr date \<Rightarrow>
     (case get_strip data ''DOI'' of
        Inl e \<Rightarrow> Inl e
      | Inr d \<Rightarrow>
     (case get_strip data ''ISSN'' of
        Inl e \<Rightarrow> Inl e
      | Inr i \<Rightarrow>
     (case get_strip data ''url'' of
        Inl e \<Rightarrow> Inl e
      | Inr u \<Rightarrow>
     (case get_method data ''itemType'' (JStr []) of
        Inl e \<Rightarrow> Inl e
      | Inr ty \<Rightarrow>
     (case get_strip data ''publicationTitle'' of
        Inl e \<Rightarrow> Inl e
      | Inr pt \<Rightarrow>
          Inr \<lparr>title = t,
               creators = names,
               year = extract_year date,
               doi = or_none d,
               issn = or_none i,
               url = or_none u,
               region = assign_region t,
               item_type = ty,
               publication_title = or_none pt\<rparr>))))))))"

record process_state =
  filtered_publications :: "publication list"
  duplicate_checker :: "string set"
  errors :: nat

text \<open>One pass of the \<^verbatim>\<open>for entry in all_items\<close> loop. Every exception of the body is
  caught and counted; the title is entered in \<^verbatim>\<open>duplicate_checker\<close> before the record is
  built.\<close>

definition process_entry :: "process_state \<Rightarrow> json \<Rightarrow> process_state" where
  "process_entry st entry =
     (case get_method entry ''data'' (JObj []) of
        Inl e \<Rightarrow> st\<lparr>errors := errors st + 1\<rparr>
      | Inr data \<Rightarrow>
          (case get_strip data ''title'' of
             Inl e \<Rightarrow> st\<lparr>errors := errors st + 1\<rparr>
           | Inr t \<Rightarrow>
               if t = [] then st
               else if t \<in> duplicate_checker st then st
               else (let st' = st\<lparr>duplicate_checker := insert t (duplicate_checker st)\<rparr>
                     in case build_publication data t of
                          Inl e \<Rightarrow> st'\<lparr>errors := errors st' + 1\<rparr>
                        | Inr pub \<Rightarrow>
                            st'\<lparr>filtered_publications := filtered_publications st' @ [pub]\<rparr>)))"

definition process_entries :: "process_state \<Rightarrow> json list \<Rightarrow> process_state" where
  "process_entries st entries = foldl process_entry st entries"

definition initial_state :: process_state where
  "initial_state = \<lparr>filtered_publications = [], duplicate_checker = {}, errors = 0\<rparr>"

text \<open>\<^verbatim>\<open>key=lambda x: x["year"] or 0\<close>, and \<^verbatim>\<open>list.sort(key=..., reverse=True)\<close>: Python
  reverses the list, sorts it stably in ascending order and reverses it again.\<close>

definition year_key :: "publication \<Rightarrow> int" where
  "year_key p = (case year p of None \<Rightarrow> 0 | Some y \<Rightarrow> if y = 0 then 0 else y)"

definition sort_reverse :: "('a \<Rightarrow> int) \<Rightarrow> 'a list \<Rightarrow> 'a list" where
  "sort_reverse k xs = rev (sort_key k (rev xs))"

text \<open>The numbers printed under \<^verbatim>\<open>Processing Results\<close>.\<close>

record report =
  processed :: nat
  errors_encountered :: nat
  duplicates_removed :: int

text \<open>\<^verbatim>\<open>process_publications\<close> returns the sorted list; the second component is what it
  prints. The region table it prints as well is not part of the model.\<close>

definition process_publications :: "json list \<Rightarrow> publication list \<times> report" where
  "process_publications entries =
     (let st = process_entries initial_state entries;
          pubs = sort_reverse year_key (filtered_publications st)
      in (pubs,
          \<lparr>processed = length pubs,
           errors_encountered = errors st,
           duplicates_removed = int (length entries) - int (length pubs) - int (errors st)\<rparr>))"

text \<open>The trimmed title of a raw record, as the loop body reads it.\<close>

definition entry_title :: "json \<Rightarrow> py_exception + string" where
  "entry_title entry =
     (case get_method entry ''data'' (JObj []) of
        Inl e \<Rightarrow> Inl e
      | Inr data \<Rightarrow> get_strip data ''title'')"

definition entry_publication :: "json \<Rightarrow> py_exception + publication" where
  "entry_publication entry =
     (case get_method entry ''data'' (JObj []) of
        Inl e \<Rightarrow> Inl e
      | Inr data \<Rightarrow>
          (case get_strip data ''title'' of
             Inl e \<Rightarrow> Inl e
           | Inr t \<Rightarrow> build_publication data t))"

text \<open>The non-empty trimmed titles of the input in input order, and a list cut down to
  the first occurrence of each of its elements.\<close>

fun titles_of :: "json list \<Rightarrow> string list" where
  "titles_of [] = []"
| "titles_of (e # es) =
     (case entry_title e of
        Inl x \<Rightarrow> titles_of es
      | Inr t \<Rightarrow> if t = [] then titles_of es else t # titles_of es)"

fun first_occurrences :: "'a list \<Rightarrow> 'a list" where
  "first_occurrences [] = []"
| "first_occurrences (x # xs) = x # first_occurrences (removeAll x xs)"

text \<open>A field that is absent or a non-empty trimmed string.\<close>

definition absent_or_stripped :: "string option \<Rightarrow> bool" where
  "absent_or_stripped v = (case v of None \<Rightarrow> True | Some s \<Rightarrow> s \<noteq> [] \<and> strip s = s)"

text \<open>The state invariant of the loop: every title of the list built is in
  \<^verbatim>\<open>duplicate_checker\<close>, and no two records of the list share a title.\<close>

definition titled :: "process_state \<Rightarrow> bool" where
  "titled st = (title ` set (filtered_publications st) \<subseteq> duplicate_checker st
                \<and> distinct (map title (filtered_publications st)))"

text \<open>The invariant of a publication record: the region is the one its own title gives,
  and each optional text field is absent or a non-empty trimmed string.\<close>

definition publication_invariant :: "publication \<Rightarrow> bool" where
  "publication_invariant p =
     (region p = assign_region (title p)
      \<and> absent_or_stripped (doi p) \<and> absent_or_stripped (issn p)
      \<and> absent_or_stripped (url p) \<and> absent_or_stripped (publication_title p))"

text \<open>The number of raw records whose trimmed title is empty.\<close>

definition untitled :: "json list \<Rightarrow> nat" where
  "untitled es = length (filter (\<lambda>e. entry_title e = Inr []) es)"

section \<open>The endpoint chosen by main\<close>

text \<open>
  The arguments after \<^verbatim>\<open>parse_args\<close>: each is \<^verbatim>\<open>None\<close> or a string, from the command line
  or the environment. \<^verbatim>\<open>main_base_url\<close> follows \<^verbatim>\<open>main\<close> up to the call of
  \<^verbatim>\<open>fetch_all_items\<close>: \<^verbatim>\<open>Inl 1\<close> is \<^verbatim>\<open>sys.exit(1)\<close>, \<^verbatim>\<open>Inr\<close> the URL that is fetched.
\<close>

record args =
  api_key :: "string option"
  group_id :: "string option"
  collection_key :: "string option"

definition supplied :: "string option \<Rightarrow> bool" where
  "supplied v = (case v of None \<Rightarrow> False | Some s \<Rightarrow> s \<noteq> [])"

text \<open>An argument inside an f-string.\<close>

definition format_arg :: "string option \<Rightarrow> string" where
  "format_arg v = (case v of None \<Rightarrow> ''None'' | Some s \<Rightarrow> s)"

definition collection_url :: "string option \<Rightarrow> string option \<Rightarrow> string" where
  "collection_url g c =
     ''https://api.zotero.org/groups/'' @ format_arg g @ ''/collections/'' @ format_arg c
     @ ''/items''"

definition group_url :: "string option \<Rightarrow> string" where
  "group_url g = ''https://api.zotero.org/groups/'' @ format_arg g @ ''/items''"

definition main_base_url :: "args \<Rightarrow> nat + string" where
  "main_base_url a =
     (if \<not> supplied (api_key a) then Inl 1
      else if \<not> supplied (group_id a) then Inl 1
      else if \<not> supplied (collection_key a) then Inl 1
      else if supplied (collection_key a) \<and> collection_key a \<noteq> Some ''VD8Z582Z''
           then Inr (collection_url (group_id a) (collection_key a))
           else Inr (group_url (group_id a)))"

text \<open>The specification's reading: a real collection key is one that is supplied and is
  not the placeholder, and the endpoint depends on nothing else.\<close>

definition real_collection_key :: "string option \<Rightarrow> bool" where
  "real_collection_key c = (supplied c \<and> c \<noteq> Some ''VD8Z582Z'')"

definition endpoint_by_key :: "args \<Rightarrow> nat + string" where
  "endpoint_by_key a =
     (if real_collection_key (collection_key a)
      then Inr (collection_url (group_id a) (collection_key a))
      else Inr (group_url (group_id a)))"

section \<open>Year extraction: proofs\<close>

lemma is_digit_is_word: "is_digit c \<Longrightarrow> is_word c"
  by (auto simp: is_digit_def is_word_def is_alnum_def Let_def)

lemma head_opt_drop: "i < length s \<Longrightarrow> head_opt (drop i s) = Some (s ! i)"
  by (metis Cons_nth_drop_Suc head_opt.simps(2))

text \<open>At a position inside the text the pattern matches exactly where a run of four
  digits with no word character on either side starts.\<close>

lemma match_year_at_run:
  assumes "i < length s"
  shows "match_year_at (if i = 0 then None else Some (s ! (i - 1))) (drop i s)
         = four_digit_run is_word s i"
proof (cases "i + 4 \<le> length s \<and> list_all is_digit (take 4 (drop i s))")
  case False
  then show ?thesis by (auto simp: match_year_at_def four_digit_run_def)
next
  case True
  then have len: "i + 4 \<le> length s" and dig: "list_all is_digit (take 4 (drop i s))" by auto
  have all: "\<forall>n<4. is_digit (s ! (i + n))"
    using len dig by (auto simp: list_all_length)
  have d0: "is_digit (s ! i)" using all[rule_format, of 0] by simp
  have d3: "is_digit (s ! (i + 3))" using all[rule_format, of 3] by simp
  have h0: "head_opt (drop i s) = Some (s ! i)" using assms by (rule head_opt_drop)
  have h3: "head_opt (drop 3 (drop i s)) = Some (s ! (i + 3))"
    using len head_opt_drop[of "i + 3" s] by (simp add: add.commute)
  have h4: "head_opt (drop 4 (drop i s)) = (if i + 4 = length s then None else Some (s ! (i + 4)))"
    using len head_opt_drop[of "i + 4" s] by (auto simp: add.commute)
  show ?thesis
    using len dig d0 d3 is_digit_is_word[OF d0] is_digit_is_word[OF d3]
    by (auto simp del: drop_drop
          simp add: match_year_at_def four_digit_run_def word_boundary_def h0 h3 h4)
qed

lemma re_search_year_find:
  "i \<le> length s \<Longrightarrow>
   re_search_year (if i = 0 then None else Some (s ! (i - 1))) (drop i s)
   = map_option (\<lambda>j. take 4 (drop j s)) (find (four_digit_run is_word s) [i..<length s])"
proof (induction "length s - i" arbitrary: i)
  case 0
  then show ?case by simp
next
  case (Suc n)
  then have lt: "i < length s" by simp
  have dr: "drop i s = s ! i # drop (Suc i) s" using lt by (simp add: Cons_nth_drop_Suc)
  have up: "[i..<length s] = i # [Suc i..<length s]" using lt by (simp add: upt_conv_Cons)
  have ih: "re_search_year (Some (s ! i)) (drop (Suc i) s)
     = map_option (\<lambda>j. take 4 (drop j s)) (find (four_digit_run is_word s) [Suc i..<length s])"
    using Suc.hyps(1)[of "Suc i"] Suc.hyps(2) lt by simp
  have m: "match_year_at (if i = 0 then None else Some (s ! (i - 1))) (s ! i # drop (Suc i) s)
         = four_digit_run is_word s i"
    using match_year_at_run[OF lt] dr by simp
  show ?case
    unfolding up
    apply (subst dr)
    apply (simp only: re_search_year.simps m find.simps)
    using ih dr by simp
qed

lemma extract_year_str: "extract_year (JStr s) = first_run is_word s"
proof -
  have "re_search_year None s
        = map_option (\<lambda>j. take 4 (drop j s)) (find (four_digit_run is_word s) [0..<length s])"
    using re_search_year_find[of 0 s] by simp
  then show ?thesis
    by (cases s) (auto simp: extract_year_def first_run_def split: option.splits)
qed

text \<open>
  Claim C1 as stated, with a non-digit or the string edge as the boundary of the run,
  fails: in \<^verbatim>\<open>c1999\<close> the run 1999 has the non-digit \<^verbatim>\<open>c\<close> on its left and the string edge
  on its right, yet \<^verbatim>\<open>extract_year\<close> finds nothing, since \<^verbatim>\<open>\b\<close> asks for a non-word
  character and a letter is a word character.
\<close>

theorem extract_year_digit_boundary_counterexample:
  "first_run is_digit ''c1999'' = Some 1999 \<and> extract_year (JStr ''c1999'') = None"
  by code_simp

text \<open>
  Claim C1, amended: for every input string, \<^verbatim>\<open>extract_year\<close> returns the first run of four
  consecutive digits that has a non-word character (neither a letter, a digit nor an
  underscore) or the string edge on both sides, as an integer; it returns absent when
  there is no such run and when the input is absent or empty. The two examples of the
  specification give 2020 and 1999.
\<close>

theorem extract_year_first_word_bounded_run:
  "extract_year (JStr s) = first_run is_word s
   \<and> extract_year JNull = None
   \<and> extract_year (JStr []) = None
   \<and> extract_year (JStr ''2020-03-01'') = Some 2020
   \<and> extract_year (JStr ''circa 1999 reprint 2005'') = Some 1999"
proof -
  have "extract_year JNull = None" "extract_year (JStr []) = None"
    by (simp_all add: extract_year_def)
  moreover have "extract_year (JStr ''2020-03-01'') = Some 2020"
    by code_simp
  moreover have "extract_year (JStr ''circa 1999 reprint 2005'') = Some 1999"
    by code_simp
  ultimately show ?thesis
    using extract_year_str[of s] by simp
qed

theorem extract_year_first_word_bounded_run_witness:
  "extract_year (JStr ''March 2020'') = Some 2020"
proof -
  have "extract_year (JStr ''March 2020'') = first_run is_word ''March 2020''"
    using extract_year_first_word_bounded_run[of "''March 2020''"] by (rule conjunct1)
  also have "first_run is_word ''March 2020'' = Some 2020"
    by code_simp
  finally show ?thesis .
qed

section \<open>Region assignment: proofs\<close>

lemma any_in_empty:
  "any_in hawaiian_keywords [] = False" "any_in samoa_keywords [] = False"
  "any_in mariana_keywords [] = False" "any_in pria_keywords [] = False"
  by (simp_all add: any_in_def hawaiian_keywords_def samoa_keywords_def
        mariana_keywords_def pria_keywords_def)

lemma assign_region_first_matching_group: "assign_region t = first_matching_group t"
proof (cases "t = []")
  case True
  then show ?thesis
    by (simp add: assign_region_def first_matching_group_def keyword_groups_def lower_def
          any_in_empty)
       (simp add: any_in_def)
next
  case False
  then show ?thesis
    by (simp add: assign_region_def first_matching_group_def keyword_groups_def Let_def)
       (simp add: any_in_def)
qed

text \<open>
  Claim C2: for every title, \<^verbatim>\<open>assign_region\<close> lower-cases it and tests the five keyword
  groups in the order Hawaiian Archipelago, American Samoa, Mariana Archipelago, Pacific
  Remote Island Areas, Pacific-wide (the substring \<^verbatim>\<open>pacific\<close>); it returns the first group
  with a substring match, and Unknown when no group matches or the title is empty. The
  title \<^verbatim>\<open>Coral reefs of Guam in the Pacific\<close> is Mariana Archipelago, not Pacific-wide.
\<close>

theorem assign_region_priority_order:
  "assign_region t = first_matching_group t
   \<and> map fst keyword_groups =
       [''Hawaiian Archipelago'', ''American Samoa'', ''Mariana Archipelago'',
        ''Pacific Remote Island Areas'', ''Pacific-wide'']
   \<and> snd (last keyword_groups) = [''pacific'']
   \<and> assign_region [] = ''Unknown''
   \<and> assign_region ''Coral reefs of Guam in the Pacific'' = ''Mariana Archipelago''
   \<and> assign_region ''Broad Pacific fisheries trends'' = ''Pacific-wide''"
proof -
  have "assign_region ''Coral reefs of Guam in the Pacific'' = ''Mariana Archipelago''"
    by code_simp
  moreover have "assign_region ''Broad Pacific fisheries trends'' = ''Pacific-wide''"
    by code_simp
  moreover have "assign_region [] = ''Unknown''"
    by (simp add: assign_region_def)
  moreover have "map fst keyword_groups =
       [''Hawaiian Archipelago'', ''American Samoa'', ''Mariana Archipelago'',
        ''Pacific Remote Island Areas'', ''Pacific-wide'']"
    "snd (last keyword_groups) = [''pacific'']"
    by (simp_all add: keyword_groups_def)
  ultimately show ?thesis
    using assign_region_first_matching_group[of t] by simp
qed

section \<open>The endpoint chosen by main: proofs\<close>

text \<open>
  Claim C8 as stated fails when no collection key is supplied at all: with an API key and
  a group id but no collection key, \<^verbatim>\<open>main\<close> leaves with status 1 before any request,
  where the claim has it fetch the group-level URL.
\<close>

theorem main_base_url_missing_key_counterexample:
  "main_base_url \<lparr>api_key = Some ''secret'', group_id = Some ''42'', collection_key = None\<rparr>
     = Inl 1
   \<and> endpoint_by_key \<lparr>api_key = Some ''secret'', group_id = Some ''42'', collection_key = None\<rparr>
     = Inr ''https://api.zotero.org/groups/42/items''"
  by (simp add: main_base_url_def endpoint_by_key_def supplied_def real_collection_key_def
        group_url_def format_arg_def)

text \<open>
  Claim C8, amended: when an API key, a group id and a collection key are all supplied
  (each a non-empty string), the fetch endpoint is the collection-level URL if the
  collection key is not the placeholder \<^verbatim>\<open>VD8Z582Z\<close>, and the group-level URL if it is the
  placeholder; when one of the three is missing or empty, \<^verbatim>\<open>main\<close> exits with status 1 and
  fetches nothing.
\<close>

theorem main_base_url_cases:
  "main_base_url a =
     (if supplied (api_key a) \<and> supplied (group_id a) \<and> supplied (collection_key a)
      then (if collection_key a \<noteq> Some ''VD8Z582Z''
            then Inr (collection_url (group_id a) (collection_key a))
            else Inr (group_url (group_id a)))
      else Inl 1)"
  by (simp add: main_base_url_def)

theorem main_base_url_cases_witness:
  "main_base_url \<lparr>api_key = Some ''secret'', group_id = Some ''42'',
                   collection_key = Some ''VD8Z582Z''\<rparr>
     = Inr ''https://api.zotero.org/groups/42/items''
   \<and> main_base_url \<lparr>api_key = Some ''secret'', group_id = Some ''42'',
                     collection_key = Some ''ABCD2345''\<rparr>
     = Inr ''https://api.zotero.org/groups/42/collections/ABCD2345/items''"
  using main_base_url_cases[of "\<lparr>api_key = Some ''secret'', group_id = Some ''42'',
                   collection_key = Some ''VD8Z582Z''\<rparr>"]
    main_base_url_cases[of "\<lparr>api_key = Some ''secret'', group_id = Some ''42'',
                   collection_key = Some ''ABCD2345''\<rparr>"]
  by (simp add: supplied_def group_url_def collection_url_def format_arg_def)

section \<open>Paginated fetch: proofs\<close>

lemma fetch_loop_append:
  "fetch_loop b st (xs @ ys) =
     (case fetch_loop b st xs of
        Running st' \<Rightarrow> fetch_loop b st' ys
      | Returned r \<Rightarrow> Returned r
      | Raised e \<Rightarrow> Raised e)"
  by (induction xs arbitrary: st) (auto split: fetch_outcome.splits)

lemma fetch_step_retry_bound:
  "fetch_step b st r = Running st' \<Longrightarrow> retry_count st' < max_retries"
  by (auto simp: fetch_step_def Let_def max_retries_def
      split: response.splits sum.splits backoff_header.splits if_splits)

lemma fetch_loop_retry_bound:
  "fetch_loop b st rs = Running st' \<Longrightarrow> retry_count st < max_retries \<Longrightarrow>
   retry_count st' < max_retries"
proof (induction rs arbitrary: st)
  case Nil
  then show ?case by simp
next
  case (Cons r rs)
  then show ?case
    by (auto split: fetch_outcome.splits dest: fetch_step_retry_bound)
qed

lemma fetch_loop_three_failures:
  assumes "retry_count st < max_retries"
  shows "fetch_loop b st (RequestException # RequestException # RequestException # rest)
         = Returned (all_items st)"
proof -
  have "retry_count st = 0 \<or> retry_count st = 1 \<or> retry_count st = 2"
    using assms by (auto simp: max_retries_def)
  then show ?thesis
    by (auto simp: fetch_step_def Let_def max_retries_def)
qed

lemma fetch_loop_one_failure:
  assumes "retry_count st + 1 < max_retries"
  shows "fetch_loop b st [RequestException]
         = Running (st\<lparr>retry_count := retry_count st + 1\<rparr>)"
  using assms by (simp add: fetch_step_def Let_def)

lemma fetch_loop_one_success:
  assumes "truthy items" "py_iter items = Inr xs"
    "hdr = No_Backoff \<or> (\<exists>n\<ge>0. hdr = Backoff_Seconds n)"
  shows "fetch_loop b st [Response items hdr] =
      Running \<lparr>all_items = all_items st @ xs, start = start st + b, retry_count = 0\<rparr>"
  using assms by (auto simp add: fetch_step_def Let_def)

text \<open>
  Claim C3: for every sequence of responses \<open>pre\<close> after which the loop of
  \<^verbatim>\<open>fetch_all_items\<close> is still running, in state \<open>st\<close>: a failed request that is not the
  third in a row leaves the offset \<^verbatim>\<open>start\<close> and the accumulated records unchanged and
  only counts the retry, so the same page is asked for again; a successful non-empty page
  appends its records, moves the offset by the batch size and sets the retry counter to
  zero; and three failures in a row make the function return the records accumulated so
  far, whatever would follow, without raising. The counter never reaches 3 while the loop
  runs.
\<close>

theorem fetch_retry_policy:
  assumes "fetch_all_items b pre = Running st"
  shows "(retry_count st + 1 < max_retries \<longrightarrow>
            fetch_all_items b (pre @ [RequestException])
              = Running (st\<lparr>retry_count := retry_count st + 1\<rparr>))
       \<and> (\<forall>items hdr xs.
            truthy items \<and> py_iter items = Inr xs
            \<and> (hdr = No_Backoff \<or> (\<exists>n\<ge>0. hdr = Backoff_Seconds n)) \<longrightarrow>
            fetch_all_items b (pre @ [Response items hdr])
              = Running \<lparr>all_items = all_items st @ xs, start = start st + b,
                          retry_count = 0\<rparr>)
       \<and> fetch_all_items b
            (pre @ [RequestException, RequestException, RequestException] @ rest)
           = Returned (all_items st)
       \<and> retry_count st < max_retries"
proof -
  have run: "fetch_loop b \<lparr>all_items = [], start = 0, retry_count = 0\<rparr> pre = Running st"
    using assms by (simp add: fetch_all_items_def)
  have bound: "retry_count st < max_retries"
    using fetch_loop_retry_bound[OF run] by (simp add: max_retries_def)
  have app: "\<And>ys. fetch_all_items b (pre @ ys) = fetch_loop b st ys"
    by (simp add: fetch_all_items_def fetch_loop_append run)
  show ?thesis
    using bound fetch_loop_three_failures[OF bound, of b rest] fetch_loop_one_failure[of st b]
      fetch_loop_one_success[of _ _ _ b st]
    by (simp only: app) auto
qed

theorem fetch_retry_policy_witness:
  "fetch_all_items 100 [Response (JArr [JInt 7]) No_Backoff, RequestException]
     = Running \<lparr>all_items = [JInt 7], start = 100, retry_count = 1\<rparr>
   \<and> fetch_all_items 100 [Response (JArr [JInt 7]) No_Backoff,
        Response (JArr [JInt 8]) (Backoff_Seconds 2)]
     = Running \<lparr>all_items = [JInt 7, JInt 8], start = 200, retry_count = 0\<rparr>
   \<and> fetch_all_items 100 [Response (JArr [JInt 7]) No_Backoff,
        RequestException, RequestException, RequestException]
     = Returned [JInt 7]"
proof -
  have run: "fetch_all_items 100 [Response (JArr [JInt 7]) No_Backoff]
             = Running \<lparr>all_items = [JInt 7], start = 100, retry_count = 0\<rparr>"
    by (simp add: fetch_all_items_def fetch_step_def)
  note p = fetch_retry_policy[OF run, of "[]"]
  have a: "fetch_all_items 100 ([Response (JArr [JInt 7]) No_Backoff] @ [RequestException])
     = Running \<lparr>all_items = [JInt 7], start = 100, retry_count = 1\<rparr>"
    using p by (simp add: max_retries_def)
  have b: "fetch_all_items 100 ([Response (JArr [JInt 7]) No_Backoff]
        @ [Response (JArr [JInt 8]) (Backoff_Seconds 2)])
     = Running \<lparr>all_items = [JInt 7, JInt 8], start = 200, retry_count = 0\<rparr>"
    using p[THEN conjunct2, THEN conjunct1, rule_format,
            of "JArr [JInt 8]" "[JInt 8]" "Backoff_Seconds 2"]
    by simp
  have c: "fetch_all_items 100 ([Response (JArr [JInt 7]) No_Backoff]
        @ [RequestException, RequestException, RequestException] @ [])
     = Returned [JInt 7]"
    using p by simp
  show ?thesis using a b c by simp
qed

section \<open>Trimming: proofs\<close>

lemma dropWhile_all_iff:
  "(\<forall>x\<in>set (dropWhile P s). P x) \<longleftrightarrow> (\<forall>x\<in>set s. P x)"
proof
  assume a: "\<forall>x\<in>set (dropWhile P s). P x"
  have "dropWhile P s = []"
  proof (rule ccontr)
    assume n: "dropWhile P s \<noteq> []"
    then have "\<not> P (hd (dropWhile P s))" by (rule hd_dropWhile)
    moreover have "hd (dropWhile P s) \<in> set (dropWhile P s)" using n by (rule hd_in_set)
    ultimately show False using a by blast
  qed
  then show "\<forall>x\<in>set s. P x" by (simp add: dropWhile_eq_Nil_conv)
next
  assume "\<forall>x\<in>set s. P x"
  then show "\<forall>x\<in>set (dropWhile P s). P x" by (blast dest: set_dropWhileD)
qed

lemma strip_eq_Nil: "strip s = [] \<longleftrightarrow> (\<forall>c\<in>set s. isspace c)"
  by (simp add: strip_def dropWhile_eq_Nil_conv dropWhile_all_iff)

lemma strip_space_Cons: "isspace c \<Longrightarrow> strip (c # s) = strip s"
  by (simp add: strip_def)

lemma strip_fixed:
  assumes "s = [] \<or> (\<not> isspace (hd s) \<and> \<not> isspace (last s))"
  shows "strip s = s"
proof (cases s)
  case Nil
  then show ?thesis by (simp add: strip_def)
next
  case (Cons a t)
  then have h: "\<not> isspace (hd s)" and l: "\<not> isspace (last s)" using assms by auto
  have 1: "dropWhile isspace s = s" using h Cons by simp
  have "rev s \<noteq> []" using Cons by simp
  moreover have "\<not> isspace (hd (rev s))" using l \<open>rev s \<noteq> []\<close> by (simp add: hd_rev)
  ultimately have 2: "dropWhile isspace (rev s) = rev s" by (cases "rev s") auto
  show ?thesis by (simp add: strip_def 1 2)
qed

lemma strip_ends:
  "strip s = [] \<or> (\<not> isspace (hd (strip s)) \<and> \<not> isspace (last (strip s)))"
proof (cases "strip s = []")
  case True
  then show ?thesis by simp
next
  case False
  let ?a = "dropWhile isspace s"
  let ?b = "dropWhile isspace (rev ?a)"
  have b: "?b \<noteq> []" using False by (simp add: strip_def)
  have a: "?a \<noteq> []"
  proof
    assume e: "?a = []"
    have "?b = []" unfolding e by simp
    then show False using b by blast
  qed
  have hb: "\<not> isspace (hd ?b)" using b by (rule hd_dropWhile)
  have ha: "\<not> isspace (hd ?a)" using a by (rule hd_dropWhile)
  have "last (strip s) = hd ?b" using b by (simp add: strip_def last_rev)
  moreover have "hd (strip s) = hd ?a"
  proof -
    have "rev ?a = takeWhile isspace (rev ?a) @ ?b" by simp
    then have "rev (rev ?a) = rev (takeWhile isspace (rev ?a) @ ?b)" by (rule arg_cong)
    then have eq: "?a = rev ?b @ rev (takeWhile isspace (rev ?a))"
      by (simp only: rev_rev_ident rev_append)
    have "rev ?b \<noteq> []" using b by simp
    then have "hd (rev ?b @ rev (takeWhile isspace (rev ?a))) = hd (rev ?b)"
      by (rule hd_append2)
    then have "hd ?a = hd (rev ?b)" using eq by simp
    then show ?thesis by (simp add: strip_def)
  qed
  ultimately show ?thesis using ha hb by simp
qed

lemma strip_idem: "strip (strip s) = strip s"
  using strip_ends[of s] by (rule strip_fixed)

lemma strip_method_stripped: "strip_method v = Inr s \<Longrightarrow> strip s = s"
  by (cases v) (auto simp: strip_idem)

lemma get_strip_stripped: "get_strip obj k = Inr s \<Longrightarrow> strip s = s"
  by (cases obj) (auto simp: get_strip_def dest: strip_method_stripped)

section \<open>Creator names: proofs\<close>

lemma space_isspace: "isspace CHR '' ''"
  by (simp add: isspace_def code_point_def)

lemma contains_semi_Cons2:
  "contains (a # b # n) ''; '' \<longleftrightarrow> (a = CHR '';'' \<and> b = CHR '' '') \<or> contains (b # n) ''; ''"
  by simp

lemma split_semi_no_sep: "\<not> contains n ''; '' \<Longrightarrow> split_semi cur n = [cur @ n]"
proof (induction cur n rule: split_semi.induct)
  case (1 cur)
  then show ?case by simp
next
  case (2 cur a)
  then show ?case by simp
next
  case (3 cur a b cs)
  then show ?case by (auto simp del: contains.simps simp add: contains_semi_Cons2)
qed

lemma split_semi_sep:
  "\<not> contains n ''; '' \<Longrightarrow>
   split_semi cur (n @ ''; '' @ r) = (cur @ n) # split_semi [] r"
proof (induction cur n rule: split_semi.induct)
  case (1 cur)
  then show ?case by simp
next
  case (2 cur a)
  then show ?case by simp
next
  case (3 cur a b cs)
  then show ?case by (auto simp del: contains.simps simp add: contains_semi_Cons2)
qed

lemma split_semi_join:
  "ns \<noteq> [] \<Longrightarrow> list_all (\<lambda>n. \<not> contains n ''; '') ns \<Longrightarrow>
   split_semi [] (join ''; '' ns) = ns"
proof (induction "''; ''" ns rule: join.induct)
  case 1
  then show ?case by simp
next
  case (2 p)
  then show ?case by (simp add: split_semi_no_sep)
next
  case (3 p q ps)
  then show ?case using split_semi_sep[of p "[]" "join ''; '' (q # ps)"] by simp
qed

lemma join_nonempty: "ns \<noteq> [] \<Longrightarrow> list_all (\<lambda>n. n \<noteq> []) ns \<Longrightarrow> join sep ns \<noteq> []"
  by (induction sep ns rule: join.induct) auto

lemma segment_count_join:
  assumes "list_all (\<lambda>n. n \<noteq> []) ns" "list_all (\<lambda>n. \<not> contains n ''; '') ns"
  shows "segment_count (join ''; '' ns) = length ns"
proof (cases "ns = []")
  case True
  then show ?thesis by (simp add: segment_count_def)
next
  case False
  then show ?thesis
    using assms join_nonempty[of ns "''; ''"] split_semi_join[of ns]
    by (simp add: segment_count_def)
qed

lemma clean_creators_loop_names:
  "list_all2 names_of cs fls \<Longrightarrow>
   clean_creators_loop acc cs = Inr (acc @ map full_name (filter has_name fls))"
proof (induction cs arbitrary: acc fls)
  case Nil
  then show ?case by simp
next
  case (Cons c cs)
  then obtain fl fls' where fls: "fls = fl # fls'" and c: "names_of c fl"
    and rest: "list_all2 names_of cs fls'"
    by (auto simp: list_all2_Cons1)
  show ?case
    using c Cons.IH[OF rest]
    by (simp add: fls names_of_def has_name_def full_name_def)
qed

lemma full_name_nonempty:
  assumes "names_of c fl" "has_name fl"
  shows "full_name fl \<noteq> []"
proof -
  have f: "strip (fst fl) = fst fl" and l: "strip (snd fl) = snd fl"
    using assms(1) by (auto simp: names_of_def dest: get_strip_stripped)
  have "\<exists>x\<in>set (fst fl @ '' '' @ snd fl). \<not> isspace x"
  proof (cases "fst fl \<noteq> []")
    case True
    then have "strip (fst fl) \<noteq> []" using f by simp
    then show ?thesis by (auto simp: strip_eq_Nil)
  next
    case False
    then have "snd fl \<noteq> []" using assms(2) by (simp add: has_name_def)
    then have "strip (snd fl) \<noteq> []" using l by simp
    then show ?thesis by (auto simp: strip_eq_Nil)
  qed
  then show ?thesis by (simp add: full_name_def strip_eq_Nil)
qed

lemma full_name_no_first:
  assumes "names_of c fl" "fst fl = []"
  shows "full_name fl = snd fl"
proof -
  have "strip (snd fl) = snd fl"
    using assms(1) by (auto simp: names_of_def dest: get_strip_stripped)
  then show ?thesis
    using assms(2) by (simp add: full_name_def strip_space_Cons space_isspace)
qed

lemma clean_creators_list:
  assumes "list_all2 names_of cs fls"
  shows "clean_creators (JArr cs) = Inr (join ''; '' (map full_name (filter has_name fls)))"
proof (cases "cs = []")
  case True
  then show ?thesis using assms by (simp add: clean_creators_def)
next
  case False
  then show ?thesis
    using clean_creators_loop_names[OF assms, of "[]"] by (simp add: clean_creators_def)
qed

lemma list_all2_rhs_witness:
  "list_all2 R xs ys \<Longrightarrow> y \<in> set ys \<Longrightarrow> \<exists>x. R x y"
  by (auto simp: list_all2_conv_all_nth in_set_conv_nth)

text \<open>
  Claim C7 as stated fails in its count of segments: a name that itself holds the
  separator, as in a last-name field filled with \<^verbatim>\<open>Doe; Roe\<close>, is one creator with a
  non-empty name and gives an output of two segments.
\<close>

theorem clean_creators_segments_counterexample:
  "clean_creators (JArr [JObj [(''lastName'', JStr ''Doe; Roe'')]]) = Inr ''Doe; Roe''
   \<and> segment_count ''Doe; Roe'' = 2
   \<and> names_of (JObj [(''lastName'', JStr ''Doe; Roe'')]) ('''', ''Doe; Roe'')
   \<and> length (filter has_name [('''', ''Doe; Roe'')]) = 1"
  by code_simp

text \<open>
  Claim C7, amended: for every creator list whose entries yield trimmed first and last
  names \<open>fls\<close> (absent names reading as empty), \<^verbatim>\<open>clean_creators\<close> skips the entries with both
  names empty, renders each remaining entry as the two trimmed names joined by one space
  and trimmed again, so that an entry without first name gives just its last name, and joins
  the results with \<^verbatim>\<open>; \<close>. The output is the join of exactly one rendered name per creator
  with a non-empty name; when no rendered name holds the separator itself, it has exactly
  as many segments as there are such creators. The empty creator list yields the empty
  string.
\<close>

theorem clean_creators_joins_named:
  assumes "list_all2 names_of cs fls"
  shows "clean_creators (JArr cs) = Inr (join ''; '' (map full_name (filter has_name fls)))
       \<and> (\<forall>fl\<in>set fls. fst fl = [] \<longrightarrow> full_name fl = snd fl)
       \<and> (list_all (\<lambda>n. \<not> contains n ''; '') (map full_name (filter has_name fls)) \<longrightarrow>
            segment_count (join ''; '' (map full_name (filter has_name fls)))
              = length (filter has_name fls))
       \<and> clean_creators (JArr []) = Inr []"
proof -
  have a: "clean_creators (JArr cs) = Inr (join ''; '' (map full_name (filter has_name fls)))"
    using assms by (rule clean_creators_list)
  have b: "\<forall>fl\<in>set fls. fst fl = [] \<longrightarrow> full_name fl = snd fl"
    using list_all2_rhs_witness[OF assms] full_name_no_first by blast
  have ne: "list_all (\<lambda>n. n \<noteq> []) (map full_name (filter has_name fls))"
    using list_all2_rhs_witness[OF assms] full_name_nonempty
    by (fastforce simp: list_all_iff)
  have c: "list_all (\<lambda>n. \<not> contains n ''; '') (map full_name (filter has_name fls)) \<longrightarrow>
            segment_count (join ''; '' (map full_name (filter has_name fls)))
              = length (filter has_name fls)"
    using segment_count_join[OF ne] by simp
  have d: "clean_creators (JArr []) = Inr []"
    by (simp add: clean_creators_def)
  show ?thesis using a b c d by blast
qed

theorem clean_creators_joins_named_witness:
  "clean_creators
     (JArr [JObj [(''firstName'', JStr '' Jane''), (''lastName'', JStr ''Doe '')],
            JObj [(''firstName'', JStr ''''), (''lastName'', JStr '' '')],
            JObj [(''creatorType'', JStr ''author''), (''lastName'', JStr ''Roe'')]])
     = Inr ''Jane Doe; Roe''
   \<and> segment_count ''Jane Doe; Roe'' = 2"
proof -
  let ?cs = "[JObj [(''firstName'', JStr '' Jane''), (''lastName'', JStr ''Doe '')],
            JObj [(''firstName'', JStr ''''), (''lastName'', JStr '' '')],
            JObj [(''creatorType'', JStr ''author''), (''lastName'', JStr ''Roe'')]]"
  let ?fls = "[(''Jane'', ''Doe''), ('''', ''''), ('''', ''Roe'')]"
  have h: "list_all2 names_of ?cs ?fls"
    by code_simp
  have j: "join ''; '' (map full_name (filter has_name ?fls)) = ''Jane Doe; Roe''"
    by code_simp
  have n: "list_all (\<lambda>n. \<not> contains n ''; '') (map full_name (filter has_name ?fls))"
    by code_simp
  have l: "length (filter has_name ?fls) = 2"
    by code_simp
  note t = clean_creators_joins_named[OF h]
  show ?thesis
    using t n unfolding j l by blast
qed

section \<open>Record processing: proofs\<close>

lemma build_publication_title: "build_publication data t = Inr p \<Longrightarrow> title p = t"
  by (auto simp: build_publication_def split: sum.splits)

lemma entry_publication_title: "entry_publication e = Inr p \<Longrightarrow> entry_title e = Inr (title p)"
  by (auto simp: entry_publication_def entry_title_def build_publication_title split: sum.splits)

lemma process_entry_cases:
  "process_entry st e =
     (case entry_title e of
        Inl x \<Rightarrow> st\<lparr>errors := errors st + 1\<rparr>
      | Inr t \<Rightarrow>
          if t = [] \<or> t \<in> duplicate_checker st then st
          else (case entry_publication e of
                  Inl x \<Rightarrow> st\<lparr>duplicate_checker := insert t (duplicate_checker st),
                               errors := errors st + 1\<rparr>
                | Inr p \<Rightarrow> st\<lparr>filtered_publications := filtered_publications st @ [p],
                               duplicate_checker := insert t (duplicate_checker st)\<rparr>))"
  by (auto simp: process_entry_def entry_title_def entry_publication_def Let_def split: sum.splits)

lemma process_entries_Nil: "process_entries st [] = st"
  by (simp add: process_entries_def)

lemma process_entries_Cons: "process_entries st (e # es) = process_entries (process_entry st e) es"
  by (simp add: process_entries_def)

lemma process_entries_append:
  "process_entries st (xs @ ys) = process_entries (process_entries st xs) ys"
  by (simp add: process_entries_def)

lemma titles_of_append: "titles_of (xs @ ys) = titles_of xs @ titles_of ys"
  by (induction xs) (auto split: sum.splits)

lemma set_titles_of: "set (titles_of es) = {t. t \<noteq> [] \<and> (\<exists>e\<in>set es. entry_title e = Inr t)}"
  by (induction es) (auto split: sum.splits)

lemma duplicate_checker_process_entries:
  "duplicate_checker (process_entries st es) = duplicate_checker st \<union> set (titles_of es)"
proof (induction es arbitrary: st)
  case Nil
  then show ?case by (simp add: process_entries_Nil)
next
  case (Cons e es)
  show ?case
    unfolding process_entries_Cons Cons.IH
    by (auto simp: process_entry_cases split: sum.splits)
qed

lemma process_entry_skip:
  assumes "entry_title e = Inr t" "t = [] \<or> t \<in> duplicate_checker st"
  shows "process_entry st e = st"
  using assms by (auto simp: process_entry_cases)

lemma titled_process_entry:
  assumes "titled st"
  shows "titled (process_entry st e)"
proof (cases "entry_title e")
  case (Inl x)
  then show ?thesis using assms by (simp add: titled_def process_entry_cases)
next
  case (Inr t)
  show ?thesis
  proof (cases "t = [] \<or> t \<in> duplicate_checker st")
    case True
    then show ?thesis using assms Inr by (simp add: process_entry_cases)
  next
    case False
    show ?thesis
    proof (cases "entry_publication e")
      case (Inl x)
      then show ?thesis
        using assms Inr False by (auto simp: titled_def process_entry_cases)
    next
      case (Inr p)
      have tp: "title p = t"
        using entry_publication_title[OF Inr] \<open>entry_title e = Inr t\<close> by simp
      have "t \<notin> title ` set (filtered_publications st)"
        using assms False by (auto simp: titled_def)
      then show ?thesis
        using assms Inr False \<open>entry_title e = Inr t\<close> tp
        by (auto simp: titled_def process_entry_cases)
    qed
  qed
qed

lemma titled_process_entries: "titled st \<Longrightarrow> titled (process_entries st es)"
  by (induction es arbitrary: st) (auto simp: process_entries_Nil process_entries_Cons titled_process_entry)

lemma titled_initial: "titled initial_state"
  by (simp add: titled_def initial_state_def)

lemma filtered_grows:
  "\<exists>ps. filtered_publications (process_entries st es) = filtered_publications st @ ps"
proof (induction es arbitrary: st)
  case Nil
  then show ?case by (simp add: process_entries_Nil)
next
  case (Cons e es)
  obtain ps where ps: "filtered_publications (process_entries (process_entry st e) es)
      = filtered_publications (process_entry st e) @ ps"
    using Cons.IH by blast
  show ?case
    unfolding process_entries_Cons ps
    by (auto simp: process_entry_cases split: sum.splits)
qed

lemma set_sort_reverse: "set (sort_reverse k xs) = set xs"
  by (simp add: sort_reverse_def)

lemma length_sort_reverse: "length (sort_reverse k xs) = length xs"
  by (simp add: sort_reverse_def)

lemma fst_process_publications:
  "fst (process_publications es) = sort_reverse year_key (filtered_publications (process_entries initial_state es))"
  by (simp add: process_publications_def Let_def)

lemma errors_process_publications:
  "errors_encountered (snd (process_publications es)) = errors (process_entries initial_state es)"
  by (simp add: process_publications_def Let_def)

lemma process_publications_drop_skipped:
  assumes "entry_title e = Inr t"
    "t = [] \<or> t \<in> duplicate_checker (process_entries initial_state pre)"
  shows "process_entries initial_state (pre @ e # post) = process_entries initial_state (pre @ post)"
  using process_entry_skip[OF assms]
  by (simp add: process_entries_append process_entries_Cons)

lemma title_kept_out:
  "t \<in> duplicate_checker st \<Longrightarrow> t \<notin> title ` set (filtered_publications st) \<Longrightarrow>
   t \<notin> title ` set (filtered_publications (process_entries st es))"
proof (induction es arbitrary: st)
  case Nil
  then show ?case by (simp add: process_entries_Nil)
next
  case (Cons e es)
  have "t \<in> duplicate_checker (process_entry st e)
        \<and> t \<notin> title ` set (filtered_publications (process_entry st e))"
    using Cons.prems
    by (auto simp: process_entry_cases split: sum.splits dest: entry_publication_title)
  then show ?case
    using Cons.IH by (simp add: process_entries_Cons)
qed

lemma duplicate_checker_initial:
  "duplicate_checker (process_entries initial_state es) = set (titles_of es)"
  by (simp add: duplicate_checker_process_entries initial_state_def)

lemma first_entry_outcome:
  assumes et: "entry_title e = Inr t" and ne: "t \<noteq> []"
    and fresh: "\<forall>e'\<in>set pre. entry_title e' \<noteq> Inr t"
  shows "case entry_publication e of
           Inr p \<Rightarrow> title p = t \<and> p \<in> set (fst (process_publications (pre @ e # post)))
         | Inl x \<Rightarrow> t \<notin> title ` set (fst (process_publications (pre @ e # post)))"
proof -
  let ?st = "process_entries initial_state pre"
  have notin: "t \<notin> duplicate_checker ?st"
    using fresh by (auto simp: duplicate_checker_initial set_titles_of)
  have inv: "titled ?st"
    using titled_initial by (rule titled_process_entries)
  then have nt: "t \<notin> title ` set (filtered_publications ?st)"
    using notin by (auto simp: titled_def)
  have run: "process_entries initial_state (pre @ e # post)
             = process_entries (process_entry ?st e) post"
    by (simp add: process_entries_append process_entries_Cons)
  show ?thesis
  proof (cases "entry_publication e")
    case (Inl x)
    have st': "process_entry ?st e
               = ?st\<lparr>duplicate_checker := insert t (duplicate_checker ?st), errors := errors ?st + 1\<rparr>"
      using et ne notin Inl by (simp add: process_entry_cases)
    have "t \<notin> title ` set (filtered_publications (process_entries (process_entry ?st e) post))"
      by (rule title_kept_out) (use nt in \<open>simp_all add: st'\<close>)
    then show ?thesis
      using Inl by (simp add: fst_process_publications set_sort_reverse run)
  next
    case (Inr p)
    have tp: "title p = t" using entry_publication_title[OF Inr] et by simp
    have st': "process_entry ?st e
               = ?st\<lparr>filtered_publications := filtered_publications ?st @ [p],
                      duplicate_checker := insert t (duplicate_checker ?st)\<rparr>"
      using et ne notin Inr by (simp add: process_entry_cases)
    obtain ps where "filtered_publications (process_entries (process_entry ?st e) post)
        = filtered_publications (process_entry ?st e) @ ps"
      using filtered_grows by blast
    then have "p \<in> set (filtered_publications (process_entries (process_entry ?st e) post))"
      by (simp add: st')
    then show ?thesis
      using Inr tp by (simp add: fst_process_publications set_sort_reverse run)
  qed
qed

text \<open>
  Claim C4: in \<^verbatim>\<open>process_publications\<close>, a record whose title is empty after trimming
  produces no publication and is not counted as an error: the output and the error count
  are those of the input without that record. Among records sharing a trimmed title
  (compared as strings, so case-sensitively), a record that comes after another one of the
  same title produces nothing either, so only the first-encountered one can produce a
  publication: it does so whenever building it raises no exception, and when building it
  raises, the record is counted as an error and the output has no publication of that
  title. No two publications of the output share a title.
\<close>

theorem process_publications_deduplicates:
  "(entry_title e = Inr [] \<longrightarrow>
      fst (process_publications (pre @ e # post)) = fst (process_publications (pre @ post))
      \<and> errors_encountered (snd (process_publications (pre @ e # post)))
          = errors_encountered (snd (process_publications (pre @ post))))
   \<and> (entry_title e = Inr t \<and> t \<noteq> [] \<and> (\<exists>e'\<in>set pre. entry_title e' = Inr t) \<longrightarrow>
      fst (process_publications (pre @ e # post)) = fst (process_publications (pre @ post))
      \<and> errors_encountered (snd (process_publications (pre @ e # post)))
          = errors_encountered (snd (process_publications (pre @ post))))
   \<and> (entry_title e = Inr t \<and> t \<noteq> [] \<and> (\<forall>e'\<in>set pre. entry_title e' \<noteq> Inr t) \<longrightarrow>
      (case entry_publication e of
         Inr p \<Rightarrow> title p = t \<and> p \<in> set (fst (process_publications (pre @ e # post)))
       | Inl x \<Rightarrow> t \<notin> title ` set (fst (process_publications (pre @ e # post)))))
   \<and> distinct (map title (fst (process_publications entries)))"
proof -
  have a: "entry_title e = Inr [] \<longrightarrow>
      fst (process_publications (pre @ e # post)) = fst (process_publications (pre @ post))
      \<and> errors_encountered (snd (process_publications (pre @ e # post)))
          = errors_encountered (snd (process_publications (pre @ post)))"
    using process_publications_drop_skipped[of e "[]" pre post]
    by (simp add: fst_process_publications errors_process_publications)
  have b: "entry_title e = Inr t \<and> t \<noteq> [] \<and> (\<exists>e'\<in>set pre. entry_title e' = Inr t) \<longrightarrow>
      fst (process_publications (pre @ e # post)) = fst (process_publications (pre @ post))
      \<and> errors_encountered (snd (process_publications (pre @ e # post)))
          = errors_encountered (snd (process_publications (pre @ post)))"
  proof
    assume h: "entry_title e = Inr t \<and> t \<noteq> [] \<and> (\<exists>e'\<in>set pre. entry_title e' = Inr t)"
    then have "t \<in> duplicate_checker (process_entries initial_state pre)"
      by (auto simp: duplicate_checker_initial set_titles_of)
    then show "fst (process_publications (pre @ e # post)) = fst (process_publications (pre @ post))
      \<and> errors_encountered (snd (process_publications (pre @ e # post)))
          = errors_encountered (snd (process_publications (pre @ post)))"
      using h process_publications_drop_skipped[of e t pre post]
      by (simp add: fst_process_publications errors_process_publications)
  qed
  have c: "entry_title e = Inr t \<and> t \<noteq> [] \<and> (\<forall>e'\<in>set pre. entry_title e' \<noteq> Inr t) \<longrightarrow>
      (case entry_publication e of
         Inr p \<Rightarrow> title p = t \<and> p \<in> set (fst (process_publications (pre @ e # post)))
       | Inl x \<Rightarrow> t \<notin> title ` set (fst (process_publications (pre @ e # post))))"
    using first_entry_outcome[of e t pre post] by blast
  have "titled (process_entries initial_state entries)"
    using titled_initial by (rule titled_process_entries)
  then have "distinct (map title (filtered_publications (process_entries initial_state entries)))"
    by (simp add: titled_def)
  then have d: "distinct (map title (fst (process_publications entries)))"
    by (simp add: fst_process_publications sort_reverse_def distinct_map)
  show ?thesis using a b c d by blast
qed

theorem process_publications_deduplicates_witness:
  "fst (process_publications [(JObj [(''data'', JObj [(''title'', JStr '' Reefs of Guam ''), (''date'', JStr ''2019-05''),
        (''DOI'', JStr '' 10.1/x ''), (''url'', JStr ''  '')])]), (JObj [(''data'', JObj [(''title'', JStr ''  '')])])]) = fst (process_publications [(JObj [(''data'', JObj [(''title'', JStr '' Reefs of Guam ''), (''date'', JStr ''2019-05''),
        (''DOI'', JStr '' 10.1/x ''), (''url'', JStr ''  '')])])])
   \<and> fst (process_publications [(JObj [(''data'', JObj [(''title'', JStr '' Reefs of Guam ''), (''date'', JStr ''2019-05''),
        (''DOI'', JStr '' 10.1/x ''), (''url'', JStr ''  '')])]), (JObj [(''data'', JObj [(''title'', JStr ''Reefs of Guam''), (''date'', JStr ''2021'')])])]) = fst (process_publications [(JObj [(''data'', JObj [(''title'', JStr '' Reefs of Guam ''), (''date'', JStr ''2019-05''),
        (''DOI'', JStr '' 10.1/x ''), (''url'', JStr ''  '')])])])
   \<and> (\<lparr>title = ''Reefs of Guam'', creators = [], year = Some 2019, doi = Some ''10.1/x'',
        issn = None, url = None, region = ''Mariana Archipelago'', item_type = JStr [],
        publication_title = None\<rparr>) \<in> set (fst (process_publications [(JObj [(''data'', JObj [(''title'', JStr '' Reefs of Guam ''), (''date'', JStr ''2019-05''),
        (''DOI'', JStr '' 10.1/x ''), (''url'', JStr ''  '')])]), (JObj [(''data'', JObj [(''title'', JStr ''Reefs of Guam''), (''date'', JStr ''2021'')])])]))"
proof -
  let ?t = "''Reefs of Guam''"
  have t0: "entry_title (JObj [(''data'', JObj [(''title'', JStr ''  '')])]) = Inr []"
    by code_simp
  have t1: "entry_title (JObj [(''data'', JObj [(''title'', JStr '' Reefs of Guam ''), (''date'', JStr ''2019-05''),
        (''DOI'', JStr '' 10.1/x ''), (''url'', JStr ''  '')])]) = Inr ?t"
    by code_simp
  have t2: "entry_title (JObj [(''data'', JObj [(''title'', JStr ''Reefs of Guam''), (''date'', JStr ''2021'')])]) = Inr ?t"
    by code_simp
  have pb: "entry_publication (JObj [(''data'', JObj [(''title'', JStr '' Reefs of Guam ''), (''date'', JStr ''2019-05''),
        (''DOI'', JStr '' 10.1/x ''), (''url'', JStr ''  '')])]) = Inr (\<lparr>title = ''Reefs of Guam'', creators = [], year = Some 2019, doi = Some ''10.1/x'',
        issn = None, url = None, region = ''Mariana Archipelago'', item_type = JStr [],
        publication_title = None\<rparr>)"
    by code_simp
  have a: "fst (process_publications ([(JObj [(''data'', JObj [(''title'', JStr '' Reefs of Guam ''), (''date'', JStr ''2019-05''),
        (''DOI'', JStr '' 10.1/x ''), (''url'', JStr ''  '')])])] @ (JObj [(''data'', JObj [(''title'', JStr ''  '')])]) # [])) = fst (process_publications ([(JObj [(''data'', JObj [(''title'', JStr '' Reefs of Guam ''), (''date'', JStr ''2019-05''),
        (''DOI'', JStr '' 10.1/x ''), (''url'', JStr ''  '')])])] @ []))"
    using process_publications_deduplicates[where e = "(JObj [(''data'', JObj [(''title'', JStr ''  '')])])" and pre = "[(JObj [(''data'', JObj [(''title'', JStr '' Reefs of Guam ''), (''date'', JStr ''2019-05''),
        (''DOI'', JStr '' 10.1/x ''), (''url'', JStr ''  '')])])]" and post = "[]"] t0
    by blast
  have b: "fst (process_publications ([(JObj [(''data'', JObj [(''title'', JStr '' Reefs of Guam ''), (''date'', JStr ''2019-05''),
        (''DOI'', JStr '' 10.1/x ''), (''url'', JStr ''  '')])])] @ (JObj [(''data'', JObj [(''title'', JStr ''Reefs of Guam''), (''date'', JStr ''2021'')])]) # [])) = fst (process_publications ([(JObj [(''data'', JObj [(''title'', JStr '' Reefs of Guam ''), (''date'', JStr ''2019-05''),
        (''DOI'', JStr '' 10.1/x ''), (''url'', JStr ''  '')])])] @ []))"
    using process_publications_deduplicates[where e = "(JObj [(''data'', JObj [(''title'', JStr ''Reefs of Guam''), (''date'', JStr ''2021'')])])" and pre = "[(JObj [(''data'', JObj [(''title'', JStr '' Reefs of Guam ''), (''date'', JStr ''2019-05''),
        (''DOI'', JStr '' 10.1/x ''), (''url'', JStr ''  '')])])]" and post = "[]"
        and t = ?t] t1 t2
    by simp
  have "case entry_publication (JObj [(''data'', JObj [(''title'', JStr '' Reefs of Guam ''), (''date'', JStr ''2019-05''),
        (''DOI'', JStr '' 10.1/x ''), (''url'', JStr ''  '')])]) of
          Inr p \<Rightarrow> title p = ?t \<and> p \<in> set (fst (process_publications ([] @ (JObj [(''data'', JObj [(''title'', JStr '' Reefs of Guam ''), (''date'', JStr ''2019-05''),
        (''DOI'', JStr '' 10.1/x ''), (''url'', JStr ''  '')])]) # [(JObj [(''data'', JObj [(''title'', JStr ''Reefs of Guam''), (''date'', JStr ''2021'')])])])))
        | Inl x \<Rightarrow> ?t \<notin> title ` set (fst (process_publications ([] @ (JObj [(''data'', JObj [(''title'', JStr '' Reefs of Guam ''), (''date'', JStr ''2019-05''),
        (''DOI'', JStr '' 10.1/x ''), (''url'', JStr ''  '')])]) # [(JObj [(''data'', JObj [(''title'', JStr ''Reefs of Guam''), (''date'', JStr ''2021'')])])])))"
    using process_publications_deduplicates[where e = "(JObj [(''data'', JObj [(''title'', JStr '' Reefs of Guam ''), (''date'', JStr ''2019-05''),
        (''DOI'', JStr '' 10.1/x ''), (''url'', JStr ''  '')])])" and pre = "[]" and post = "[(JObj [(''data'', JObj [(''title'', JStr ''Reefs of Guam''), (''date'', JStr ''2021'')])])]"
        and t = ?t] t1
    by simp
  then have c: "(\<lparr>title = ''Reefs of Guam'', creators = [], year = Some 2019, doi = Some ''10.1/x'',
        issn = None, url = None, region = ''Mariana Archipelago'', item_type = JStr [],
        publication_title = None\<rparr>) \<in> set (fst (process_publications ([] @ (JObj [(''data'', JObj [(''title'', JStr '' Reefs of Guam ''), (''date'', JStr ''2019-05''),
        (''DOI'', JStr '' 10.1/x ''), (''url'', JStr ''  '')])]) # [(JObj [(''data'', JObj [(''title'', JStr ''Reefs of Guam''), (''date'', JStr ''2021'')])])])))"
    by (simp add: pb)
  show ?thesis using a b c by simp
qed

lemma sorted_wrt_sort_reverse:
  "sorted_wrt (\<lambda>p q. k p \<ge> k q) (sort_reverse k xs)"
proof -
  have "sorted (map k (sort_key k (rev xs)))" by (rule sorted_sort_key)
  then have "sorted_wrt (\<lambda>p q. k p \<le> k q) (sort_key k (rev xs))"
    by (simp add: sorted_map)
  then show ?thesis
    by (simp add: sort_reverse_def sorted_wrt_rev)
qed

lemma year_key_absent_zero: "year_key p = (case year p of None \<Rightarrow> 0 | Some y \<Rightarrow> y)"
  by (simp add: year_key_def split: option.splits)

text \<open>
  Claim C5: for every input list, the list returned by \<^verbatim>\<open>process_publications\<close> is
  non-increasing by year, a publication with an absent year being ordered as if its year
  were 0.
\<close>

theorem process_publications_sorted_by_year:
  "sorted_wrt
     (\<lambda>p q. (case year p of None \<Rightarrow> 0 | Some y \<Rightarrow> y)
              \<ge> (case year q of None \<Rightarrow> 0 | Some y \<Rightarrow> y))
     (fst (process_publications entries))"
proof -
  have "sorted_wrt (\<lambda>p q. year_key p \<ge> year_key q) (fst (process_publications entries))"
    unfolding fst_process_publications by (rule sorted_wrt_sort_reverse)
  then show ?thesis
    by (simp only: year_key_absent_zero)
qed

lemma finite_duplicate_checker:
  "finite (duplicate_checker st) \<Longrightarrow> finite (duplicate_checker (process_entries st es))"
  by (simp add: duplicate_checker_process_entries)

lemma process_entry_count:
  assumes "finite (duplicate_checker st)"
  shows "length (filtered_publications (process_entry st e)) + errors (process_entry st e)
           + untitled [e] + length (titles_of [e]) + card (duplicate_checker st)
         = length (filtered_publications st) + errors st + 1
           + card (duplicate_checker (process_entry st e))"
  using assms
  by (auto simp: process_entry_cases untitled_def split: sum.splits)

lemma process_entries_count:
  assumes "finite (duplicate_checker st)"
  shows "length (filtered_publications (process_entries st es)) + errors (process_entries st es)
           + untitled es + length (titles_of es) + card (duplicate_checker st)
         = length (filtered_publications st) + errors st + length es
           + card (duplicate_checker (process_entries st es))"
  using assms
proof (induction es arbitrary: st)
  case Nil
  then show ?case by (simp add: process_entries_Nil untitled_def)
next
  case (Cons e es)
  let ?st1 = "process_entry st e"
  have fin1: "finite (duplicate_checker ?st1)"
    using Cons.prems finite_duplicate_checker[of st "[e]"]
    by (simp add: process_entries_Cons process_entries_Nil)
  have step: "length (filtered_publications ?st1) + errors ?st1
           + untitled [e] + length (titles_of [e]) + card (duplicate_checker st)
         = length (filtered_publications st) + errors st + 1 + card (duplicate_checker ?st1)"
    using Cons.prems by (rule process_entry_count)
  have ih: "length (filtered_publications (process_entries ?st1 es))
           + errors (process_entries ?st1 es)
           + untitled es + length (titles_of es) + card (duplicate_checker ?st1)
         = length (filtered_publications ?st1) + errors ?st1 + length es
           + card (duplicate_checker (process_entries ?st1 es))"
    using fin1 by (rule Cons.IH)
  have u: "untitled (e # es) = untitled [e] + untitled es"
    by (simp add: untitled_def)
  have t: "length (titles_of (e # es)) = length (titles_of [e]) + length (titles_of es)"
    using titles_of_append[of "[e]" es] by simp
  show ?case
    unfolding process_entries_Cons u t using step ih by simp
qed

text \<open>
  Claim C6: the duplicates-removed number that \<^verbatim>\<open>process_publications\<close> prints is the
  number of input records minus the number of publications produced minus the number of
  errors counted. It is derived from these counters and not tracked on its own: it equals
  the number of records with an empty trimmed title plus the number of records that repeat
  a title, so it can mislead, and a single record without title is reported as one
  duplicate removed.
\<close>

theorem duplicates_removed_derived:
  "duplicates_removed (snd (process_publications entries))
     = int (length entries) - int (processed (snd (process_publications entries)))
       - int (errors_encountered (snd (process_publications entries)))
   \<and> processed (snd (process_publications entries)) = length (fst (process_publications entries))
   \<and> duplicates_removed (snd (process_publications entries))
     = int (untitled entries)
       + (int (length (titles_of entries)) - int (card (set (titles_of entries))))
   \<and> duplicates_removed (snd (process_publications [JObj []])) = 1"
proof -
  let ?st = "process_entries initial_state entries"
  have a: "duplicates_removed (snd (process_publications entries))
     = int (length entries) - int (processed (snd (process_publications entries)))
       - int (errors_encountered (snd (process_publications entries)))"
    "processed (snd (process_publications entries)) = length (fst (process_publications entries))"
    by (simp_all add: process_publications_def Let_def)
  have cnt: "length (filtered_publications ?st) + errors ?st
           + untitled entries + length (titles_of entries)
         = length entries + card (set (titles_of entries))"
    using process_entries_count[of initial_state entries]
    by (simp add: duplicate_checker_initial) (simp add: initial_state_def)
  have "duplicates_removed (snd (process_publications entries))
        = int (length entries) - int (length (filtered_publications ?st)) - int (errors ?st)"
    by (simp add: process_publications_def Let_def length_sort_reverse)
  also have "\<dots> = int (untitled entries)
       + (int (length (titles_of entries)) - int (card (set (titles_of entries))))"
    using cnt by linarith
  finally have b: "duplicates_removed (snd (process_publications entries))
     = int (untitled entries)
       + (int (length (titles_of entries)) - int (card (set (titles_of entries))))" .
  have c: "duplicates_removed (snd (process_publications [JObj []])) = 1"
    by (simp add: process_publications_def Let_def process_entries_def process_entry_def
          initial_state_def get_strip_def dict_get_def strip_def sort_reverse_def)
  show ?thesis using a b c by blast
qed

lemma or_none_ok: "strip s = s \<Longrightarrow> absent_or_stripped (or_none s)"
  by (simp add: absent_or_stripped_def or_none_def)

lemma build_publication_invariant:
  "build_publication data t = Inr p \<Longrightarrow> publication_invariant p"
  by (auto simp: build_publication_def publication_invariant_def
      split: sum.splits intro!: or_none_ok dest: get_strip_stripped)

lemma entry_publication_invariant:
  "entry_publication e = Inr p \<Longrightarrow> publication_invariant p"
  by (auto simp: entry_publication_def split: sum.splits dest: build_publication_invariant)

lemma process_entry_invariant:
  "\<forall>p\<in>set (filtered_publications st). publication_invariant p \<Longrightarrow>
   \<forall>p\<in>set (filtered_publications (process_entry st e)). publication_invariant p"
  by (auto simp: process_entry_cases split: sum.splits dest: entry_publication_invariant)

lemma process_entries_invariant:
  "\<forall>p\<in>set (filtered_publications st). publication_invariant p \<Longrightarrow>
   \<forall>p\<in>set (filtered_publications (process_entries st es)). publication_invariant p"
proof (induction es arbitrary: st)
  case Nil
  then show ?case by (simp add: process_entries_Nil)
next
  case (Cons e es)
  show ?case
    unfolding process_entries_Cons
    by (rule Cons.IH) (rule process_entry_invariant[OF Cons.prems])
qed

text \<open>
  Claim C9: every publication in the result of \<^verbatim>\<open>process_publications\<close> has as region
  \<^verbatim>\<open>assign_region\<close> of its own title, and each of its \<^verbatim>\<open>doi\<close>, \<^verbatim>\<open>issn\<close>, \<^verbatim>\<open>url\<close> and
  \<^verbatim>\<open>publication_title\<close> fields is absent or a non-empty trimmed string, never the empty
  string.
\<close>

theorem process_publications_invariant:
  "\<forall>p\<in>set (fst (process_publications entries)).
     region p = assign_region (title p)
     \<and> absent_or_stripped (doi p) \<and> absent_or_stripped (issn p)
     \<and> absent_or_stripped (url p) \<and> absent_or_stripped (publication_title p)"
proof -
  have "\<forall>p\<in>set (filtered_publications (process_entries initial_state entries)).
          publication_invariant p"
    by (rule process_entries_invariant) (simp add: initial_state_def)
  then show ?thesis
    by (simp add: fst_process_publications set_sort_reverse publication_invariant_def)
qed

theorem process_publications_invariant_witness:
  "fst (process_publications [(JObj [(''data'', JObj [(''title'', JStr '' Reefs of Guam ''), (''date'', JStr ''2019-05''),
        (''DOI'', JStr '' 10.1/x ''), (''url'', JStr ''  '')])])]) = [(\<lparr>title = ''Reefs of Guam'', creators = [], year = Some 2019, doi = Some ''10.1/x'',
        issn = None, url = None, region = ''Mariana Archipelago'', item_type = JStr [],
        publication_title = None\<rparr>)]
   \<and> region (\<lparr>title = ''Reefs of Guam'', creators = [], year = Some 2019, doi = Some ''10.1/x'',
        issn = None, url = None, region = ''Mariana Archipelago'', item_type = JStr [],
        publication_title = None\<rparr>) = assign_region ''Reefs of Guam''
   \<and> absent_or_stripped (Some ''10.1/x'')
   \<and> absent_or_stripped None"
proof -
  have ev: "fst (process_publications [(JObj [(''data'', JObj [(''title'', JStr '' Reefs of Guam ''), (''date'', JStr ''2019-05''),
        (''DOI'', JStr '' 10.1/x ''), (''url'', JStr ''  '')])])]) = [(\<lparr>title = ''Reefs of Guam'', creators = [], year = Some 2019, doi = Some ''10.1/x'',
        issn = None, url = None, region = ''Mariana Archipelago'', item_type = JStr [],
        publication_title = None\<rparr>)]"
    by code_simp
  have "region (\<lparr>title = ''Reefs of Guam'', creators = [], year = Some 2019, doi = Some ''10.1/x'',
        issn = None, url = None, region = ''Mariana Archipelago'', item_type = JStr [],
        publication_title = None\<rparr>) = assign_region (title (\<lparr>title = ''Reefs of Guam'', creators = [], year = Some 2019, doi = Some ''10.1/x'',
        issn = None, url = None, region = ''Mariana Archipelago'', item_type = JStr [],
        publication_title = None\<rparr>))
     \<and> absent_or_stripped (doi (\<lparr>title = ''Reefs of Guam'', creators = [], year = Some 2019, doi = Some ''10.1/x'',
        issn = None, url = None, region = ''Mariana Archipelago'', item_type = JStr [],
        publication_title = None\<rparr>)) \<and> absent_or_stripped (issn (\<lparr>title = ''Reefs of Guam'', creators = [], year = Some 2019, doi = Some ''10.1/x'',
        issn = None, url = None, region = ''Mariana Archipelago'', item_type = JStr [],
        publication_title = None\<rparr>))
     \<and> absent_or_stripped (url (\<lparr>title = ''Reefs of Guam'', creators = [], year = Some 2019, doi = Some ''10.1/x'',
        issn = None, url = None, region = ''Mariana Archipelago'', item_type = JStr [],
        publication_title = None\<rparr>)) \<and> absent_or_stripped (publication_title (\<lparr>title = ''Reefs of Guam'', creators = [], year = Some 2019, doi = Some ''10.1/x'',
        issn = None, url = None, region = ''Mariana Archipelago'', item_type = JStr [],
        publication_title = None\<rparr>))"
    using process_publications_invariant[of "[(JObj [(''data'', JObj [(''title'', JStr '' Reefs of Guam ''), (''date'', JStr ''2019-05''),
        (''DOI'', JStr '' 10.1/x ''), (''url'', JStr ''  '')])])]"] by (simp add: ev)
  then show ?thesis using ev by simp
qed

lemma removeAll_filter: "removeAll t (filter P xs) = filter (\<lambda>x. P x \<and> x \<noteq> t) xs"
  by (induction xs) auto

lemma set_first_occurrences: "set (first_occurrences xs) = set xs"
  by (induction xs rule: first_occurrences.induct) auto

lemma distinct_first_occurrences: "distinct (first_occurrences xs)"
  by (induction xs rule: first_occurrences.induct) (auto simp: set_first_occurrences)

lemma filtered_titles_subseq:
  "\<exists>ps. filtered_publications (process_entries st es) = filtered_publications st @ ps
        \<and> subseq (map title ps)
            (first_occurrences (filter (\<lambda>t. t \<notin> duplicate_checker st) (titles_of es)))"
proof (induction es arbitrary: st)
  case Nil
  then show ?case by (simp add: process_entries_Nil)
next
  case (Cons e es)
  let ?st1 = "process_entry st e"
  obtain ps where ps: "filtered_publications (process_entries ?st1 es)
        = filtered_publications ?st1 @ ps"
    and sub: "subseq (map title ps)
        (first_occurrences (filter (\<lambda>t. t \<notin> duplicate_checker ?st1) (titles_of es)))"
    using Cons.IH[of ?st1] by blast
  show ?case
  proof (cases "entry_title e")
    case (Inl x)
    then have "?st1 = st\<lparr>errors := errors st + 1\<rparr>" by (simp add: process_entry_cases)
    then show ?thesis using ps sub Inl by (simp add: process_entries_Cons)
  next
    case (Inr t)
    show ?thesis
    proof (cases "t = [] \<or> t \<in> duplicate_checker st")
      case True
      then have "?st1 = st" using Inr by (simp add: process_entry_cases)
      then show ?thesis using ps sub Inr True by (auto simp: process_entries_Cons)
    next
      case False
      have flt: "filter (\<lambda>x. x \<notin> duplicate_checker st) (titles_of (e # es))
            = t # filter (\<lambda>x. x \<notin> duplicate_checker st) (titles_of es)"
        using Inr False by simp
      have rm: "removeAll t (filter (\<lambda>x. x \<notin> duplicate_checker st) (titles_of es))
            = filter (\<lambda>x. x \<notin> insert t (duplicate_checker st)) (titles_of es)"
        by (simp add: removeAll_filter conj_commute)
      have fo: "first_occurrences (filter (\<lambda>x. x \<notin> duplicate_checker st) (titles_of (e # es)))
            = t # first_occurrences
                    (filter (\<lambda>x. x \<notin> insert t (duplicate_checker st)) (titles_of es))"
        by (simp only: flt first_occurrences.simps rm)
      show ?thesis
      proof (cases "entry_publication e")
        case (Inl x)
        then have st1: "?st1 = st\<lparr>duplicate_checker := insert t (duplicate_checker st),
                      errors := errors st + 1\<rparr>"
          using Inr False by (simp add: process_entry_cases)
        have "subseq (map title ps)
            (first_occurrences (filter (\<lambda>x. x \<notin> insert t (duplicate_checker st)) (titles_of es)))"
          using sub by (simp add: st1)
        then have "subseq (map title ps)
            (first_occurrences (filter (\<lambda>x. x \<notin> duplicate_checker st) (titles_of (e # es))))"
          unfolding fo by (rule list_emb_Cons)
        moreover have "filtered_publications (process_entries st (e # es))
            = filtered_publications st @ ps"
          using ps by (simp add: process_entries_Cons st1)
        ultimately show ?thesis by blast
      next
        case (Inr p)
        have tp: "title p = t"
          using entry_publication_title[OF Inr] \<open>entry_title e = Inr t\<close> by simp
        have st1: "?st1 = st\<lparr>filtered_publications := filtered_publications st @ [p],
                      duplicate_checker := insert t (duplicate_checker st)\<rparr>"
          using Inr False \<open>entry_title e = Inr t\<close> by (simp add: process_entry_cases)
        have "subseq (map title ps)
            (first_occurrences (filter (\<lambda>x. x \<notin> insert t (duplicate_checker st)) (titles_of es)))"
          using sub by (simp add: st1)
        then have "subseq (map title (p # ps))
            (first_occurrences (filter (\<lambda>x. x \<notin> duplicate_checker st) (titles_of (e # es))))"
          unfolding fo by (simp add: tp)
        moreover have "filtered_publications (process_entries st (e # es))
            = filtered_publications st @ (p # ps)"
          using ps by (simp add: process_entries_Cons st1)
        ultimately show ?thesis by blast
      qed
    qed
  qed
qed

lemma filter_sort_reverse:
  "filter (\<lambda>x. k x = v) (sort_reverse k xs) = filter (\<lambda>x. k x = v) xs"
proof -
  have "filter (\<lambda>x. k x = v) (sort_key k (rev xs)) = filter (\<lambda>x. k x = v) (rev xs)"
    by (rule sort_key_stable)
  then show ?thesis
    by (simp add: sort_reverse_def rev_filter[symmetric])
qed

text \<open>
  Claim C10: among the publications of the output with the same effective year \<open>k\<close>
  (an absent year counting as 0), the order is the one of the list built before sorting,
  since the sort is stable; and that list follows the order in which the titles first
  occur in the input, since deduplication keeps the first occurrence. So the titles of the
  publications of one year come in the order of their first occurrence in the input. In
  the example the records of 2019 keep their input order, the second record of title
  \<^verbatim>\<open>b\<close> is dropped, and the undated record comes last.
\<close>

theorem process_publications_stable_order:
  "filter (\<lambda>p. year_key p = k) (fst (process_publications entries))
     = filter (\<lambda>p. year_key p = k) (filtered_publications (process_entries initial_state entries))
   \<and> subseq (map title (filtered_publications (process_entries initial_state entries)))
       (first_occurrences (titles_of entries))
   \<and> subseq (map title (filter (\<lambda>p. year_key p = k) (fst (process_publications entries))))
       (first_occurrences (titles_of entries))
   \<and> distinct (first_occurrences (titles_of entries))
   \<and> map title (fst (process_publications
        [JObj [(''data'', JObj [(''title'', JStr ''b''), (''date'', JStr ''2019'')])],
         JObj [(''data'', JObj [(''title'', JStr ''a'')])],
         JObj [(''data'', JObj [(''title'', JStr ''c''), (''date'', JStr ''May 2019'')])],
         JObj [(''data'', JObj [(''title'', JStr ''b''), (''date'', JStr ''2021'')])]]))
       = [''b'', ''c'', ''a'']"
proof -
  let ?built = "filtered_publications (process_entries initial_state entries)"
  have a: "filter (\<lambda>p. year_key p = k) (fst (process_publications entries))
     = filter (\<lambda>p. year_key p = k) ?built"
    by (simp add: fst_process_publications filter_sort_reverse)
  obtain ps where "?built = filtered_publications initial_state @ ps"
    and "subseq (map title ps)
      (first_occurrences (filter (\<lambda>t. t \<notin> duplicate_checker initial_state) (titles_of entries)))"
    using filtered_titles_subseq[of initial_state entries] by blast
  then have b: "subseq (map title ?built) (first_occurrences (titles_of entries))"
    by (simp add: initial_state_def)
  have "subseq (map title (filter (\<lambda>p. year_key p = k) ?built)) (map title ?built)"
    by (rule subseq_map) (rule subseq_filter_left)
  then have c: "subseq (map title (filter (\<lambda>p. year_key p = k) (fst (process_publications entries))))
       (first_occurrences (titles_of entries))"
    unfolding a using b by (rule subseq_order.trans)
  have d: "map title (fst (process_publications
        [JObj [(''data'', JObj [(''title'', JStr ''b''), (''date'', JStr ''2019'')])],
         JObj [(''data'', JObj [(''title'', JStr ''a'')])],
         JObj [(''data'', JObj [(''title'', JStr ''c''), (''date'', JStr ''May 2019'')])],
         JObj [(''data'', JObj [(''title'', JStr ''b''), (''date'', JStr ''2021'')])]]))
       = [''b'', ''c'', ''a'']"
    by code_simp
  show ?thesis using a b c d distinct_first_occurrences by blast
qed

end
